theory Spec2Isabelle
  imports
    Main
    "HOL-Library.List_Lexorder"
    "HOL-Library.Product_Lexorder"
    "HOL-Library.Multiset"
begin

section \<open>Data model\<close>

text \<open>
  A Python \<^verbatim>\<open>str\<close> is a sequence of Unicode code points, so a text is a list of
  code points. Offsets are Python integers (unbounded, possibly negative). A span
  (\<^verbatim>\<open>ent\<close> in \<^verbatim>\<open>clean.py\<close>) is the triple \<^verbatim>\<open>(start, end, label)\<close>.
\<close>

type_synonym codepoint = nat
type_synonym pystr = "codepoint list"
type_synonym ent = "int \<times> int \<times> pystr"

definition str :: "string \<Rightarrow> pystr" where
  "str s = map of_char s"

definition space :: codepoint where "space = 32"
definition period :: codepoint where "period = 46"
definition lparen :: codepoint where "lparen = 40"
definition rparen :: codepoint where "rparen = 41"
definition hyphen :: codepoint where "hyphen = 45"
definition newline :: codepoint where "newline = 10"

datatype error = IndexError | AssertionError

text \<open>Python indexing \<^verbatim>\<open>xs[i]\<close> and slicing \<^verbatim>\<open>xs[a:b]\<close> on integers of either sign.\<close>

definition py_index :: "'a list \<Rightarrow> int \<Rightarrow> error + 'a" where
  "py_index xs i =
     (if 0 \<le> i \<and> i < int (length xs) then Inr (xs ! nat i)
      else if i < 0 \<and> - int (length xs) \<le> i then Inr (xs ! nat (int (length xs) + i))
      else Inl IndexError)"

definition py_slice :: "'a list \<Rightarrow> int \<Rightarrow> int \<Rightarrow> 'a list" where
  "py_slice xs a b =
     (let n = int (length xs);
          a' = (if a < 0 then max (a + n) 0 else min a n);
          b' = (if b < 0 then max (b + n) 0 else min b n)
      in drop (nat a') (take (nat b') xs))"

definition startswith :: "'a \<Rightarrow> 'a list \<Rightarrow> bool" where
  "startswith c s = (case s of [] \<Rightarrow> False | x # _ \<Rightarrow> x = c)"

definition endswith :: "'a \<Rightarrow> 'a list \<Rightarrow> bool" where
  "endswith c s = (case rev s of [] \<Rightarrow> False | x # _ \<Rightarrow> x = c)"

section \<open>Label noise: \<^verbatim>\<open>remove_ner_noise\<close>\<close>

text \<open>
  \<^verbatim>\<open>re.sub(r"-[0-9]*$", "", label)\<close>: the scan goes left to right and takes the first
  position holding a hyphen whose remainder is a run of ASCII digits reaching the end of
  the string. Python's \<^verbatim>\<open>$\<close> also matches just before a newline that is the last
  character; that newline is then kept. No second match can follow the first.
\<close>

definition is_digit :: "codepoint \<Rightarrow> bool" where
  "is_digit c \<longleftrightarrow> 48 \<le> c \<and> c \<le> 57"

definition at_dollar :: "pystr \<Rightarrow> bool" where
  "at_dollar r \<longleftrightarrow> r = [] \<or> r = [newline]"

fun sub_noise :: "pystr \<Rightarrow> pystr" where
  "sub_noise [] = []"
| "sub_noise (c # cs) =
     (if c = hyphen \<and> at_dollar (dropWhile is_digit cs) then dropWhile is_digit cs
      else c # sub_noise cs)"

definition remove_ner_noise :: "ent list \<Rightarrow> ent list" where
  "remove_ner_noise ent_list = map (\<lambda>(e0, e1, e2). (e0, e1, sub_noise e2)) ent_list"

text \<open>A label is noisy when the pattern matches somewhere in it.\<close>

fun noisy :: "pystr \<Rightarrow> bool" where
  "noisy [] = False"
| "noisy (c # cs) = ((c = hyphen \<and> at_dollar (dropWhile is_digit cs)) \<or> noisy cs)"

section \<open>Character classes\<close>

text \<open>
  \<^verbatim>\<open>is_char\<close> matches one character against \<^verbatim>\<open>[\w\d]\<close> with \<^verbatim>\<open>re.U\<close>. On ASCII that
  is letters, digits and the underscore. For the other code points the answer is the
  Unicode database's, which is not part of the repository: it is the parameter
  \<open>uni\<close> of everything below.
\<close>

definition ascii_word :: "codepoint \<Rightarrow> bool" where
  "ascii_word c \<longleftrightarrow>
     (48 \<le> c \<and> c \<le> 57) \<or> (65 \<le> c \<and> c \<le> 90) \<or> c = 95 \<or> (97 \<le> c \<and> c \<le> 122)"

definition is_char :: "(codepoint \<Rightarrow> bool) \<Rightarrow> codepoint \<Rightarrow> bool" where
  "is_char uni c = (if c < 128 then ascii_word c else uni c)"

definition is_not_char :: "(codepoint \<Rightarrow> bool) \<Rightarrow> codepoint \<Rightarrow> bool" where
  "is_not_char uni c = (\<not> is_char uni c)"

text \<open>A table for texts that are ASCII only: it is never asked about such a text.\<close>

definition ascii_only :: "codepoint \<Rightarrow> bool" where
  "ascii_only c = False"

definition has_word :: "(codepoint \<Rightarrow> bool) \<Rightarrow> pystr \<Rightarrow> bool" where
  "has_word uni text = list_ex (is_char uni) text"

section \<open>Boundary search: \<^verbatim>\<open>fix_char_index\<close>\<close>

definition is_border :: "(codepoint \<Rightarrow> bool) \<Rightarrow> bool \<Rightarrow> codepoint \<Rightarrow> codepoint \<Rightarrow> bool" where
  "is_border uni i_is_start a b =
     (if i_is_start then is_not_char uni a \<and> is_char uni b
      else is_char uni a \<and> is_not_char uni b)"

text \<open>The loop's test at \<open>i_current\<close>, on the padded text.\<close>

definition probe :: "(codepoint \<Rightarrow> bool) \<Rightarrow> pystr \<Rightarrow> bool \<Rightarrow> int \<Rightarrow> bool" where
  "probe uni text i_is_start i_current =
     (let i_a = i_current - 1; i_b = i_current
      in 0 \<le> i_a \<and> i_b < int (length text)
         \<and> is_border uni i_is_start (text ! nat i_a) (text ! nat i_b))"

text \<open>The loop's \<^verbatim>\<open>else\<close> branch on the pair \<open>(i_current, i_step)\<close>.\<close>

fun advance :: "int \<times> int \<Rightarrow> int \<times> int" where
  "advance (i_current, i_step) =
     (i_current + i_step, - (if i_step > 0 then i_step + 1 else i_step - 1))"

text \<open>The \<^verbatim>\<open>while not found\<close> loop; \<open>None\<close> when it never ends.\<close>

partial_function (option) search ::
  "(codepoint \<Rightarrow> bool) \<Rightarrow> pystr \<Rightarrow> bool \<Rightarrow> int \<times> int \<Rightarrow> int option" where
  "search uni text i_is_start st =
     (if probe uni text i_is_start (fst st) then Some (fst st)
      else search uni text i_is_start (advance st))"

declare search.simps [code]

text \<open>The same loop cut off after \<open>n\<close> probes.\<close>

fun search_within ::
  "nat \<Rightarrow> (codepoint \<Rightarrow> bool) \<Rightarrow> pystr \<Rightarrow> bool \<Rightarrow> int \<times> int \<Rightarrow> int option" where
  "search_within 0 uni text i_is_start st = None"
| "search_within (Suc n) uni text i_is_start st =
     (if probe uni text i_is_start (fst st) then Some (fst st)
      else search_within n uni text i_is_start (advance st))"

text \<open>
  \<^verbatim>\<open>re.compile(r'^\. *$').match(s)\<close>: a period, then spaces only up to the end
  (or up to a final newline).
\<close>

definition sentence_final :: "pystr \<Rightarrow> bool" where
  "sentence_final s =
     (case s of [] \<Rightarrow> False
      | c # cs \<Rightarrow> c = period \<and> at_dollar (dropWhile (\<lambda>x. x = space) cs))"

text \<open>
  The test of the abbreviation rule at \<open>i_corrected\<close>, on the padded text. The loop
  only returns positions its test accepted, so \<open>i_corrected\<close> is inside the padded
  text (lemma \<open>probe_range\<close>) and the index cannot raise.
\<close>

definition is_abbreviation :: "pystr \<Rightarrow> int \<Rightarrow> bool" where
  "is_abbreviation text i_corrected \<longleftrightarrow>
     text ! nat i_corrected = period \<and> \<not> sentence_final (drop (nat i_corrected) text)"

definition pad :: "pystr \<Rightarrow> pystr" where
  "pad text = space # text @ [space]"

definition fix_char_index ::
  "(codepoint \<Rightarrow> bool) \<Rightarrow> pystr \<Rightarrow> int \<Rightarrow> bool \<Rightarrow> int option" where
  "fix_char_index uni text i i_is_start =
     (let text' = pad text;
          i' = i + 1;
          i_step = (if i_is_start then - 1 else 1)
      in case search uni text' i_is_start (i', i_step) of
           None \<Rightarrow> None
         | Some i_corrected \<Rightarrow>
             Some ((if is_abbreviation text' i_corrected then i_corrected + 1 else i_corrected) - 1))"

section \<open>Parenthesis repair: \<^verbatim>\<open>fix_parenthesis\<close>\<close>

definition count_of :: "codepoint \<Rightarrow> pystr \<Rightarrow> nat" where
  "count_of c s = count_list s c"

text \<open>The two tests, each on the span as it came in.\<close>

definition opens_left :: "pystr \<Rightarrow> int \<Rightarrow> int \<Rightarrow> bool" where
  "opens_left text i_a i_b \<longleftrightarrow>
     i_a > 0 \<and> py_index text (i_a - 1) = Inr lparen
     \<and> count_of rparen (py_slice text i_a i_b) > count_of lparen (py_slice text i_a i_b)"

definition closes_right :: "pystr \<Rightarrow> int \<Rightarrow> int \<Rightarrow> bool" where
  "closes_right text i_a i_b \<longleftrightarrow>
     i_b < int (length text) - 1 \<and> py_index text i_b = Inr rparen
     \<and> count_of lparen (py_slice text i_a i_b) > count_of rparen (py_slice text i_a i_b)"

definition fix_parenthesis :: "ent \<Rightarrow> pystr \<Rightarrow> error + ent" where
  "fix_parenthesis ent text =
     (case ent of (i_a, i_b, e2) \<Rightarrow>
        let text_sub = py_slice text i_a i_b in
        case (if i_a > 0 then
                (case py_index text (i_a - 1) of
                   Inl err \<Rightarrow> Inl err
                 | Inr c \<Rightarrow>
                     Inr (if c = lparen \<and> count_of rparen text_sub > count_of lparen text_sub
                          then (i_a - 1, i_b, e2) else ent))
              else Inr ent) of
          Inl err \<Rightarrow> Inl err
        | Inr ent_new \<Rightarrow>
            (if i_b < int (length text) - 1 then
               (case py_index text i_b of
                  Inl err \<Rightarrow> Inl err
                | Inr c \<Rightarrow>
                    Inr (if c = rparen \<and> count_of lparen text_sub > count_of rparen text_sub
                         then (i_a, i_b + 1, e2) else ent_new))
             else Inr ent_new))"

section \<open>Span normalizer: \<^verbatim>\<open>fix_borders\<close>\<close>

text \<open>
  One pass of the \<^verbatim>\<open>for ent in ent_list\<close> body. The outer \<open>option\<close> is \<open>None\<close>
  when a boundary search never ends; \<open>Inl\<close> is a raised exception.
\<close>

definition fix_ent :: "(codepoint \<Rightarrow> bool) \<Rightarrow> pystr \<Rightarrow> ent \<Rightarrow> (error + ent) option" where
  "fix_ent uni text ent =
     (case ent of (e0, e1, e2) \<Rightarrow>
        case fix_char_index uni text e0 True of
          None \<Rightarrow> None
        | Some n0 \<Rightarrow>
           (case fix_char_index uni text e1 False of
              None \<Rightarrow> None
            | Some n1 \<Rightarrow>
               Some (case fix_parenthesis (n0, n1, e2) text of
                       Inl err \<Rightarrow> Inl err
                     | Inr ent_new \<Rightarrow>
                         (let sub = py_slice text (fst ent_new) (fst (snd ent_new))
                          in if startswith space sub \<or> endswith space sub
                             then Inl AssertionError else Inr ent_new))))"

fun fix_borders_main ::
  "(codepoint \<Rightarrow> bool) \<Rightarrow> ent list \<Rightarrow> pystr \<Rightarrow> (error + ent list) option" where
  "fix_borders_main uni [] text = Some (Inr [])"
| "fix_borders_main uni (ent # ent_list) text =
     (case fix_ent uni text ent of
        None \<Rightarrow> None
      | Some (Inl err) \<Rightarrow> Some (Inl err)
      | Some (Inr ent_new) \<Rightarrow>
         (case fix_borders_main uni ent_list text of
            None \<Rightarrow> None
          | Some (Inl err) \<Rightarrow> Some (Inl err)
          | Some (Inr ent_list_new) \<Rightarrow> Some (Inr (ent_new # ent_list_new))))"

definition fix_borders ::
  "(codepoint \<Rightarrow> bool) \<Rightarrow> ent list \<Rightarrow> pystr \<Rightarrow> (error + ent list) option" where
  "fix_borders uni ent_list text = fix_borders_main uni ent_list text"

text \<open>
  What holds of every span the normalizer returns: both offsets lie in the text, the
  first character is a word character or an opening parenthesis, the last one a word
  character, a period or a closing parenthesis.
\<close>

definition well_placed :: "(codepoint \<Rightarrow> bool) \<Rightarrow> pystr \<Rightarrow> ent \<Rightarrow> bool" where
  "well_placed uni text ent =
     (case ent of (n0, n1, e2) \<Rightarrow>
        0 \<le> n0 \<and> n0 < int (length text) \<and> 0 < n1 \<and> n1 \<le> int (length text)
        \<and> (is_char uni (text ! nat n0) \<or> text ! nat n0 = lparen)
        \<and> (is_char uni (text ! nat (n1 - 1)) \<or> text ! nat (n1 - 1) = period
             \<or> text ! nat (n1 - 1) = rparen))"

text \<open>The ASCII white space of \<^verbatim>\<open>str.isspace\<close>.\<close>

definition ascii_whitespace :: "codepoint \<Rightarrow> bool" where
  "ascii_whitespace c \<longleftrightarrow> (9 \<le> c \<and> c \<le> 13) \<or> (28 \<le> c \<and> c \<le> 32)"

section \<open>Deduplication: \<^verbatim>\<open>deduplicate\<close>\<close>

text \<open>
  The three stable sorts of lines 129 to 131; labels compare as Python strings do,
  code point by code point, a proper prefix first.
\<close>

definition three_sorts :: "ent list \<Rightarrow> ent list" where
  "three_sorts ent_list_new =
     sort_key (\<lambda>x. fst x) (sort_key (\<lambda>x. fst (snd x)) (sort_key (\<lambda>x. snd (snd x)) ent_list_new))"

text \<open>
  \<^verbatim>\<open>list(ent_set)\<close> lists the distinct tuples in an order Python does not fix.
  \<open>deduplicate\<close> takes one such order; \<open>set_order\<close> says what any other
  one looks like.
\<close>

definition set_order :: "ent list \<Rightarrow> ent list \<Rightarrow> bool" where
  "set_order ent_list ent_list_new \<longleftrightarrow>
     distinct ent_list_new \<and> set ent_list_new = set ent_list"

definition deduplicate :: "ent list \<Rightarrow> ent list" where
  "deduplicate ent_list = three_sorts (remdups ent_list)"

text \<open>The order of the result: start, then end, then label.\<close>

definition ent_le :: "ent \<Rightarrow> ent \<Rightarrow> bool" where
  "ent_le x y \<longleftrightarrow>
     fst x < fst y
     \<or> (fst x = fst y \<and> (fst (snd x) < fst (snd y)
         \<or> (fst (snd x) = fst (snd y) \<and> snd (snd x) \<le> snd (snd y))))"

section \<open>Boundary search: the loop\<close>

lemma not_word_punctuation:
  "\<not> is_char uni space" "\<not> is_char uni period" "\<not> is_char uni lparen" "\<not> is_char uni rparen"
  by (simp_all add: is_char_def ascii_word_def space_def period_def lparen_def rparen_def)

lemma advance_start:
  "(advance ^^ (2 * j)) (p, - 1) = (p + int j, - (2 * int j + 1))
   \<and> (advance ^^ Suc (2 * j)) (p, - 1) = (p - int j - 1, 2 * int j + 2)"
  by (induction j) simp_all

lemma advance_end:
  "(advance ^^ (2 * j)) (p, 1) = (p - int j, 2 * int j + 1)
   \<and> (advance ^^ Suc (2 * j)) (p, 1) = (p + int j + 1, - (2 * int j + 2))"
  by (induction j) simp_all

lemma reach_start: "\<exists>k \<le> 2 * nat \<bar>b - p\<bar>. fst ((advance ^^ k) (p, - 1)) = b"
proof (cases "p \<le> b")
  case True
  then have "fst ((advance ^^ (2 * nat (b - p))) (p, - 1)) = b"
    by (simp add: advance_start [THEN conjunct1])
  moreover from True have "2 * nat (b - p) \<le> 2 * nat \<bar>b - p\<bar>" by simp
  ultimately show ?thesis by blast
next
  case False
  then have "fst ((advance ^^ Suc (2 * nat (p - b - 1))) (p, - 1)) = b"
    by (simp only: advance_start [THEN conjunct2]) simp
  moreover from False have "Suc (2 * nat (p - b - 1)) \<le> 2 * nat \<bar>b - p\<bar>" by simp
  ultimately show ?thesis by blast
qed

lemma reach_end: "\<exists>k \<le> 2 * nat \<bar>b - p\<bar>. fst ((advance ^^ k) (p, 1)) = b"
proof (cases "b \<le> p")
  case True
  then have "fst ((advance ^^ (2 * nat (p - b))) (p, 1)) = b"
    by (simp add: advance_end [THEN conjunct1])
  moreover from True have "2 * nat (p - b) \<le> 2 * nat \<bar>b - p\<bar>" by simp
  ultimately show ?thesis by blast
next
  case False
  then have "fst ((advance ^^ Suc (2 * nat (b - p - 1))) (p, 1)) = b"
    by (simp only: advance_end [THEN conjunct2]) simp
  moreover from False have "Suc (2 * nat (b - p - 1)) \<le> 2 * nat \<bar>b - p\<bar>" by simp
  ultimately show ?thesis by blast
qed

lemma search_within_reach:
  "probe uni text m (fst ((advance ^^ k) st)) \<Longrightarrow> \<exists>r. search_within (Suc k) uni text m st = Some r"
proof (induction k arbitrary: st)
  case 0
  then show ?case by simp
next
  case (Suc k)
  from Suc.prems have "probe uni text m (fst ((advance ^^ k) (advance st)))"
    by (simp add: funpow_swap1)
  from Suc.IH [OF this] show ?case by auto
qed

lemma search_within_mono:
  "search_within n uni text m st = Some r \<Longrightarrow> n \<le> n' \<Longrightarrow> search_within n' uni text m st = Some r"
proof (induction n arbitrary: n' st)
  case 0
  then show ?case by simp
next
  case (Suc n)
  then obtain k where "n' = Suc k" "n \<le> k" by (cases n') auto
  with Suc show ?case by (auto split: if_splits)
qed

lemma search_within_probe:
  "search_within n uni text m st = Some r \<Longrightarrow> probe uni text m r"
  by (induction n arbitrary: st) (auto split: if_splits)

lemma search_within_search:
  "search_within n uni text m st = Some r \<Longrightarrow> search uni text m st = Some r"
proof (induction n arbitrary: st)
  case 0
  then show ?case by simp
next
  case (Suc n)
  show ?case
  proof (cases "probe uni text m (fst st)")
    case True
    with Suc.prems show ?thesis by (subst search.simps) simp
  next
    case False
    with Suc.prems have "search_within n uni text m (advance st) = Some r" by simp
    from Suc.IH [OF this] False show ?thesis by (subst search.simps) simp
  qed
qed

lemma search_probe:
  assumes "search uni text m st = Some r" shows "probe uni text m r"
  by (rule search.raw_induct [where P = "\<lambda>uni text m st r. probe uni text m r", OF _ assms])
     (auto split: if_splits)

lemma search_never:
  assumes "\<And>c. \<not> probe uni text m c" shows "search uni text m st = None"
proof (cases "search uni text m st")
  case None
  then show ?thesis .
next
  case (Some r)
  then have "probe uni text m r" by (rule search_probe)
  with assms show ?thesis by blast
qed

section \<open>Boundary search: borders of the padded text\<close>

lemma length_pad: "length (pad text) = length text + 2"
  by (simp add: pad_def)

lemma pad_nth:
  "pad text ! 0 = space"
  "k < length text \<Longrightarrow> pad text ! Suc k = text ! k"
  "pad text ! Suc (length text) = space"
  by (simp_all add: pad_def nth_append)

lemma probe_nat:
  "probe uni t m (int k + 1) \<longleftrightarrow> Suc k < length t \<and> is_border uni m (t ! k) (t ! Suc k)"
proof -
  have "nat (int k + 1 - 1) = k" "nat (int k + 1) = Suc k" by simp_all
  then show ?thesis unfolding probe_def Let_def by auto
qed

lemma probe_range: "probe uni t m c \<Longrightarrow> 1 \<le> c \<and> c < int (length t)"
  unfolding probe_def Let_def by simp

lemma probe_start_nat:
  "probe uni (pad text) True (int k + 1) \<longleftrightarrow>
     k < length text \<and> is_char uni (text ! k) \<and> (k = 0 \<or> \<not> is_char uni (text ! (k - 1)))"
  unfolding probe_nat length_pad is_border_def is_not_char_def
proof (cases "k < length text")
  case True
  show "(Suc k < length text + 2 \<and>
          (if True then \<not> is_char uni (pad text ! k) \<and> is_char uni (pad text ! Suc k)
           else is_char uni (pad text ! k) \<and> \<not> is_char uni (pad text ! Suc k))) =
        (k < length text \<and> is_char uni (text ! k) \<and> (k = 0 \<or> \<not> is_char uni (text ! (k - 1))))"
  proof (cases k)
    case 0
    with True show ?thesis by (simp add: pad_nth not_word_punctuation)
  next
    case (Suc j)
    with True have "pad text ! Suc k = text ! k" "pad text ! Suc j = text ! j"
      by (simp_all add: pad_nth)
    with True Suc show ?thesis by auto
  qed
next
  case False
  show "(Suc k < length text + 2 \<and>
          (if True then \<not> is_char uni (pad text ! k) \<and> is_char uni (pad text ! Suc k)
           else is_char uni (pad text ! k) \<and> \<not> is_char uni (pad text ! Suc k))) =
        (k < length text \<and> is_char uni (text ! k) \<and> (k = 0 \<or> \<not> is_char uni (text ! (k - 1))))"
  proof (cases "k = length text")
    case True
    then show ?thesis by (simp add: pad_nth not_word_punctuation)
  next
    case False
    with \<open>\<not> k < length text\<close> show ?thesis by simp
  qed
qed

lemma probe_end_nat:
  "probe uni (pad text) False (int k + 1) \<longleftrightarrow>
     0 < k \<and> k \<le> length text \<and> is_char uni (text ! (k - 1))
     \<and> (k = length text \<or> \<not> is_char uni (text ! k))"
  unfolding probe_nat length_pad is_border_def is_not_char_def
proof (cases k)
  case 0
  then show "(Suc k < length text + 2 \<and>
          (if False then \<not> is_char uni (pad text ! k) \<and> is_char uni (pad text ! Suc k)
           else is_char uni (pad text ! k) \<and> \<not> is_char uni (pad text ! Suc k))) =
        (0 < k \<and> k \<le> length text \<and> is_char uni (text ! (k - 1))
          \<and> (k = length text \<or> \<not> is_char uni (text ! k)))"
    by (simp add: pad_nth not_word_punctuation)
next
  case (Suc j)
  show "(Suc k < length text + 2 \<and>
          (if False then \<not> is_char uni (pad text ! k) \<and> is_char uni (pad text ! Suc k)
           else is_char uni (pad text ! k) \<and> \<not> is_char uni (pad text ! Suc k))) =
        (0 < k \<and> k \<le> length text \<and> is_char uni (text ! (k - 1))
          \<and> (k = length text \<or> \<not> is_char uni (text ! k)))"
  proof (cases "k < length text")
    case True
    with Suc have "pad text ! Suc k = text ! k" "pad text ! Suc j = text ! j"
      by (simp_all add: pad_nth)
    with True Suc show ?thesis by simp
  next
    case False
    show ?thesis
    proof (cases "k = length text")
      case True
      with Suc have "pad text ! Suc j = text ! j" "length text - Suc 0 = j" "text \<noteq> []"
        by (auto simp: pad_nth)
      with True Suc show ?thesis by (simp add: pad_nth not_word_punctuation)
    next
      case False
      with \<open>\<not> k < length text\<close> show ?thesis by simp
    qed
  qed
qed


lemma start_border_exists:
  assumes "has_word uni text"
  shows "\<exists>k < length text. probe uni (pad text) True (int k + 1)"
proof -
  from assms have "\<exists>x\<in>set text. is_char uni x"
    by (simp add: has_word_def list_ex_iff)
  from split_list_first_prop [OF this]
  obtain ys x zs where s: "text = ys @ x # zs" "is_char uni x" "\<forall>y\<in>set ys. \<not> is_char uni y"
    by blast
  have "length ys = 0 \<or> \<not> is_char uni (text ! (length ys - 1))"
  proof (cases ys rule: rev_cases)
    case Nil
    then show ?thesis by simp
  next
    case (snoc ws w)
    with s have "text ! (length ys - 1) = w" "\<not> is_char uni w"
      by (simp_all add: nth_append)
    then show ?thesis by simp
  qed
  moreover from s have "length ys < length text" "is_char uni (text ! length ys)"
    by simp_all
  ultimately have "probe uni (pad text) True (int (length ys) + 1)"
    using probe_start_nat [THEN iffD2] by blast
  with \<open>length ys < length text\<close> show ?thesis by blast
qed

lemma end_border_exists:
  assumes "has_word uni text"
  shows "\<exists>k. 0 < k \<and> k \<le> length text \<and> probe uni (pad text) False (int k + 1)"
proof -
  from assms have "\<exists>x\<in>set text. is_char uni x"
    by (simp add: has_word_def list_ex_iff)
  from split_list_last_prop [OF this]
  obtain ys x zs where s: "text = ys @ x # zs" "is_char uni x" "\<forall>z\<in>set zs. \<not> is_char uni z"
    by blast
  have "Suc (length ys) = length text \<or> \<not> is_char uni (text ! Suc (length ys))"
  proof (cases zs)
    case Nil
    with s show ?thesis by simp
  next
    case (Cons w ws)
    with s have "text ! Suc (length ys) = w" "\<not> is_char uni w"
      by (simp_all add: nth_append)
    then show ?thesis by simp
  qed
  moreover from s have "Suc (length ys) \<le> length text" "is_char uni (text ! (Suc (length ys) - 1))"
    by simp_all
  ultimately have "probe uni (pad text) False (int (Suc (length ys)) + 1)"
    using probe_end_nat [THEN iffD2] by blast
  with \<open>Suc (length ys) \<le> length text\<close> show ?thesis by blast
qed

lemma no_word_no_probe:
  assumes "\<not> has_word uni text" shows "\<not> probe uni (pad text) m c"
proof
  assume p: "probe uni (pad text) m c"
  from assms have all: "\<forall>x\<in>set (pad text). \<not> is_char uni x"
    by (auto simp: has_word_def list_ex_iff pad_def not_word_punctuation)
  from p have r: "1 \<le> c" "c < int (length (pad text))"
    using probe_range by blast+
  then have "nat (c - 1) < length (pad text)" "nat c < length (pad text)"
    by linarith+
  then have "pad text ! nat (c - 1) \<in> set (pad text)" "pad text ! nat c \<in> set (pad text)"
    by simp_all
  with all have "\<not> is_char uni (pad text ! nat (c - 1))" "\<not> is_char uni (pad text ! nat c)"
    by blast+
  with p show False
    unfolding probe_def Let_def is_border_def is_not_char_def by (simp split: if_splits)
qed

section \<open>Boundary search: what \<open>fix_char_index\<close> returns\<close>

lemma search_within_border:
  assumes "probe uni t m b"
  shows "\<exists>r. search_within (Suc (2 * nat \<bar>b - p\<bar>)) uni t m (p, if m then - 1 else 1) = Some r"
proof -
  obtain k where k: "k \<le> 2 * nat \<bar>b - p\<bar>" "fst ((advance ^^ k) (p, if m then - 1 else 1)) = b"
    using reach_start [of b p] reach_end [of b p] by (cases m) auto
  with assms have "probe uni t m (fst ((advance ^^ k) (p, if m then - 1 else 1)))" by simp
  then obtain r where "search_within (Suc k) uni t m (p, if m then - 1 else 1) = Some r"
    using search_within_reach by blast
  moreover from k have "Suc k \<le> Suc (2 * nat \<bar>b - p\<bar>)" by simp
  ultimately show ?thesis using search_within_mono by blast
qed

lemma fix_char_index_Some:
  "fix_char_index uni text i m = Some r \<longleftrightarrow>
     (\<exists>c. search uni (pad text) m (i + 1, if m then - 1 else 1) = Some c
        \<and> r = (if is_abbreviation (pad text) c then c + 1 else c) - 1)"
  unfolding fix_char_index_def Let_def by (auto split: option.splits)

lemma fix_char_index_None:
  "fix_char_index uni text i m = None \<longleftrightarrow>
     search uni (pad text) m (i + 1, if m then - 1 else 1) = None"
  unfolding fix_char_index_def Let_def by (auto split: option.splits)

lemma probe_as_nat:
  assumes "probe uni t m c" obtains k where "c = int k + 1"
proof -
  from assms have "1 \<le> c" using probe_range by blast
  then have "c = int (nat (c - 1)) + 1" by simp
  then show thesis by (rule that)
qed

lemma start_no_abbreviation:
  assumes "probe uni (pad text) True c" shows "\<not> is_abbreviation (pad text) c"
proof -
  from assms obtain k where k: "c = int k + 1" by (rule probe_as_nat)
  with assms have "probe uni (pad text) True (int k + 1)" by simp
  from this [unfolded probe_start_nat] have "k < length text" "is_char uni (text ! k)"
    by blast+
  then have "pad text ! Suc k \<noteq> period"
    using not_word_punctuation(2) [of uni] by (auto simp: pad_nth)
  moreover have "nat c = Suc k" using k by simp
  ultimately show ?thesis unfolding is_abbreviation_def by simp
qed

lemma fix_char_index_start:
  assumes "fix_char_index uni text i True = Some r"
  shows "0 \<le> r \<and> r < int (length text) \<and> is_char uni (text ! nat r)
         \<and> (r = 0 \<or> \<not> is_char uni (text ! nat (r - 1)))
         \<and> search uni (pad text) True (i + 1, - 1) = Some (r + 1)"
proof -
  from assms obtain c where c: "search uni (pad text) True (i + 1, - 1) = Some c"
    "r = (if is_abbreviation (pad text) c then c + 1 else c) - 1"
    unfolding fix_char_index_Some by auto
  then have p: "probe uni (pad text) True c" using search_probe by blast
  then have r: "r = c - 1" using c start_no_abbreviation by simp
  from p obtain k where k: "c = int k + 1" by (rule probe_as_nat)
  with p have "probe uni (pad text) True (int k + 1)" by simp
  from this [unfolded probe_start_nat]
  have "k < length text" "is_char uni (text ! k)" "k = 0 \<or> \<not> is_char uni (text ! (k - 1))"
    by blast+
  moreover have "r = int k" using r k by simp
  moreover have "nat (int k - 1) = k - 1" by simp
  ultimately show ?thesis using c(1) k by auto
qed

lemma fix_char_index_end:
  assumes "fix_char_index uni text i False = Some r"
  shows "1 \<le> r \<and> r \<le> int (length text)
         \<and> (is_char uni (text ! nat (r - 1)) \<or> text ! nat (r - 1) = period)"
proof -
  from assms obtain c where c: "search uni (pad text) False (i + 1, 1) = Some c"
    "r = (if is_abbreviation (pad text) c then c + 1 else c) - 1"
    unfolding fix_char_index_Some by auto
  then have p: "probe uni (pad text) False c" using search_probe by blast
  from p obtain k where k: "c = int k + 1" by (rule probe_as_nat)
  with p have "probe uni (pad text) False (int k + 1)" by simp
  from this [unfolded probe_end_nat]
  have kk: "0 < k" "k \<le> length text" "is_char uni (text ! (k - 1))"
    by blast+
  have nk: "nat c = Suc k" using k by simp
  show ?thesis
  proof (cases "is_abbreviation (pad text) c")
    case False
    with c k have "r = int k" by simp
    moreover have "nat (int k - 1) = k - 1" by simp
    ultimately show ?thesis using kk by auto
  next
    case True
    then have per: "pad text ! Suc k = period"
      unfolding is_abbreviation_def nk by simp
    have "k \<noteq> length text"
    proof
      assume "k = length text"
      with per have "space = period" by (simp add: pad_nth)
      then show False by (simp add: space_def period_def)
    qed
    with kk have lt: "k < length text" by simp
    with per have "text ! k = period" by (simp add: pad_nth)
    moreover from True c k have "r = int k + 1" by simp
    moreover have "nat (int k + 1 - 1) = k" by simp
    ultimately show ?thesis using lt by auto
  qed
qed

lemma fix_char_index_returns:
  assumes "has_word uni text"
  shows "\<exists>r. fix_char_index uni text i m = Some r"
proof -
  from assms obtain b where "probe uni (pad text) m b"
    using start_border_exists [of uni "text"] end_border_exists [of uni "text"]
    by (cases m) auto
  from search_within_border [OF this, of "i + 1"]
  obtain c where "search_within (Suc (2 * nat \<bar>b - (i + 1)\<bar>)) uni (pad text) m
                    (i + 1, if m then - 1 else 1) = Some c" by blast
  then have "search uni (pad text) m (i + 1, if m then - 1 else 1) = Some c"
    by (rule search_within_search)
  then show ?thesis unfolding fix_char_index_Some by blast
qed

lemma fix_char_index_diverges:
  assumes "\<not> has_word uni text"
  shows "fix_char_index uni text i m = None"
  unfolding fix_char_index_None
  by (rule search_never) (rule no_word_no_probe [OF assms])

section \<open>Boundary search: termination and range\<close>

lemma border_exists:
  assumes "has_word uni text"
  shows "\<exists>k \<le> length text. probe uni (pad text) m (int k + 1)"
proof (cases m)
  case True
  with start_border_exists [OF assms] show ?thesis by (auto intro: less_imp_le)
next
  case False
  with end_border_exists [OF assms] show ?thesis by auto
qed

text \<open>
  C1, as stated: for every text and every index within it the search ends. It does not
  end on a text without a word character, which has no border in either mode: the
  loop probes further and further out for ever.
\<close>

theorem fix_char_index_not_total:
  "fix_char_index ascii_only (str ''- -'') 1 True = None
   \<and> fix_char_index ascii_only (str ''- -'') 1 False = None"
proof -
  have "\<not> has_word ascii_only (str ''- -'')" by code_simp
  then show ?thesis by (simp add: fix_char_index_diverges)
qed

text \<open>
  C1, amended: for every text that holds at least one word character and every index
  from 0 to the length of the text, the search ends in either mode after at most
  \<open>2 * len(text) + 1\<close> probes, and \<open>fix_char_index\<close> returns a value from 0 to the
  length of the text.
\<close>

theorem fix_char_index_terminates:
  assumes "has_word uni text" and "0 \<le> i" and "i \<le> int (length text)"
  shows "\<exists>c r. search_within (2 * length text + 1) uni (pad text) i_is_start
                  (i + 1, if i_is_start then - 1 else 1) = Some c
           \<and> fix_char_index uni text i i_is_start = Some r
           \<and> r = (if is_abbreviation (pad text) c then c + 1 else c) - 1
           \<and> 0 \<le> r \<and> r \<le> int (length text)"
proof -
  let ?st = "(i + 1, if i_is_start then - 1 else 1)"
  from border_exists [OF assms(1)]
  obtain k where k: "k \<le> length text" "probe uni (pad text) i_is_start (int k + 1)"
    by blast
  from search_within_border [OF k(2), of "i + 1"]
  obtain c where c: "search_within (Suc (2 * nat \<bar>int k + 1 - (i + 1)\<bar>)) uni (pad text)
                       i_is_start ?st = Some c"
    by blast
  from k(1) assms(2,3) have "Suc (2 * nat \<bar>int k + 1 - (i + 1)\<bar>) \<le> 2 * length text + 1"
    by simp
  with c have w: "search_within (2 * length text + 1) uni (pad text) i_is_start ?st = Some c"
    by (rule search_within_mono)
  then have "search uni (pad text) i_is_start ?st = Some c"
    by (rule search_within_search)
  then have f: "fix_char_index uni text i i_is_start
                  = Some ((if is_abbreviation (pad text) c then c + 1 else c) - 1)"
    unfolding fix_char_index_Some by blast
  have "0 \<le> (if is_abbreviation (pad text) c then c + 1 else c) - 1
        \<and> (if is_abbreviation (pad text) c then c + 1 else c) - 1 \<le> int (length text)"
  proof (cases i_is_start)
    case True
    with f show ?thesis using fix_char_index_start [of uni "text" i] by simp
  next
    case False
    with f show ?thesis using fix_char_index_end [of uni "text" i] by simp
  qed
  with w f show ?thesis by blast
qed

theorem fix_char_index_terminates_witness:
  "has_word ascii_only (str ''ab cd'')
   \<and> fix_char_index ascii_only (str ''ab cd'') 2 True = Some 3
   \<and> fix_char_index ascii_only (str ''ab cd'') 3 False = Some 2
   \<and> search_within (2 * length (str ''ab cd'') + 1) ascii_only (pad (str ''ab cd'')) True (2 + 1, - 1)
       = Some 4"
proof -
  have h: "has_word ascii_only (str ''ab cd'')" by code_simp
  have l: "(2::int) \<le> int (length (str ''ab cd''))" "(3::int) \<le> int (length (str ''ab cd''))"
    by (simp_all add: str_def)
  have a: "fix_char_index ascii_only (str ''ab cd'') 2 True = Some 3" by code_simp
  have b: "fix_char_index ascii_only (str ''ab cd'') 3 False = Some 2" by code_simp
  from fix_char_index_terminates [OF h _ l(1), of True]
  obtain c where "search_within (2 * length (str ''ab cd'') + 1) ascii_only (pad (str ''ab cd''))
                    True (2 + 1, - 1) = Some c"
    and "Some (3::int) = Some ((if is_abbreviation (pad (str ''ab cd'')) c then c + 1 else c) - 1)"
    unfolding a by auto
  moreover have "\<not> is_abbreviation (pad (str ''ab cd'')) 3" by code_simp
  ultimately have "search_within (2 * length (str ''ab cd'') + 1) ascii_only (pad (str ''ab cd''))
                    True (2 + 1, - 1) = Some 4"
    by (auto split: if_splits)
  with h a b show ?thesis by blast
qed

text \<open>
  C10: whenever \<open>fix_char_index\<close> returns in START mode, the index it returns is a
  position of the text that holds a word character; the border the search found is
  therefore never a period, and the abbreviation rule does not fire in START mode.
\<close>

theorem fix_char_index_start_on_word:
  assumes "fix_char_index uni text i True = Some r"
  shows "0 \<le> r \<and> r \<le> int (length text) - 1 \<and> is_char uni (text ! nat r)
         \<and> (\<forall>c. search uni (pad text) True (i + 1, - 1) = Some c
               \<longrightarrow> \<not> is_abbreviation (pad text) c)"
proof -
  from fix_char_index_start [OF assms]
  have "0 \<le> r" "r < int (length text)" "is_char uni (text ! nat r)" by blast+
  moreover have "\<not> is_abbreviation (pad text) c"
    if "search uni (pad text) True (i + 1, - 1) = Some c" for c
    using search_probe [OF that] by (rule start_no_abbreviation)
  ultimately show ?thesis by auto
qed

theorem fix_char_index_start_on_word_witness:
  "fix_char_index ascii_only (str ''N.O. ist'') 2 True = Some 2
   \<and> (2::int) \<le> int (length (str ''N.O. ist'')) - 1
   \<and> is_char ascii_only (str ''N.O. ist'' ! nat 2)
   \<and> search ascii_only (pad (str ''N.O. ist'')) True (2 + 1, - 1) = Some 3
   \<and> \<not> is_abbreviation (pad (str ''N.O. ist'')) 3"
proof -
  have a: "fix_char_index ascii_only (str ''N.O. ist'') 2 True = Some 2" by code_simp
  have s: "search ascii_only (pad (str ''N.O. ist'')) True (2 + 1, - 1) = Some 3" by code_simp
  from fix_char_index_start_on_word [OF a] s a show ?thesis by simp
qed

section \<open>Parenthesis repair: properties\<close>

lemma fix_parenthesis_cases:
  "fix_parenthesis (i_a, i_b, e2) text =
     (if int (length text) < i_a \<or> (i_b < int (length text) - 1 \<and> i_b < - int (length text))
      then Inl IndexError
      else Inr (if opens_left text i_a i_b then i_a - 1 else i_a,
                if closes_right text i_a i_b then i_b + 1 else i_b, e2))"
  by (auto simp: fix_parenthesis_def opens_left_def closes_right_def py_index_def Let_def
           split: sum.splits)

lemma paren_conditions_exclusive:
  "\<not> (opens_left text i_a i_b \<and> closes_right text i_a i_b)"
  by (auto simp: opens_left_def closes_right_def)

text \<open>
  C3: each side of the result is decided by its own test, taken on the span as it came
  in: the start moves left exactly when the left test holds, the end moves right exactly
  when the right test holds, whatever the other test says (outside the two cases in
  which an index is out of range and Python raises). A span extended on both sides would
  be what two tests holding together give; the two tests ask for opposite imbalances of
  the same substring, so no text and span satisfy both.
\<close>

theorem fix_parenthesis_independent:
  "fix_parenthesis (i_a, i_b, e2) text =
     (if int (length text) < i_a \<or> (i_b < int (length text) - 1 \<and> i_b < - int (length text))
      then Inl IndexError
      else Inr (if opens_left text i_a i_b then i_a - 1 else i_a,
                if closes_right text i_a i_b then i_b + 1 else i_b, e2))
   \<and> \<not> (opens_left text i_a i_b \<and> closes_right text i_a i_b)"
  using fix_parenthesis_cases paren_conditions_exclusive by blast

theorem fix_parenthesis_independent_witness:
  "opens_left (str ''(Bad) Ischl'') 1 5
   \<and> fix_parenthesis (1, 5, str ''LOC'') (str ''(Bad) Ischl'') = Inr (0, 5, str ''LOC'')
   \<and> closes_right (str ''a (b) c'') 2 4
   \<and> fix_parenthesis (2, 4, str ''LOC'') (str ''a (b) c'') = Inr (2, 5, str ''LOC'')"
proof -
  have l: "opens_left (str ''(Bad) Ischl'') 1 5" by code_simp
  have r: "closes_right (str ''a (b) c'') 2 4" by code_simp
  have n: "length (str ''(Bad) Ischl'') = 11" "length (str ''a (b) c'') = 7"
    by (simp_all add: str_def)
  from fix_parenthesis_independent [of 1 5 "str ''LOC''" "str ''(Bad) Ischl''"] l n
  have a: "fix_parenthesis (1, 5, str ''LOC'') (str ''(Bad) Ischl'') = Inr (0, 5, str ''LOC'')"
    by simp
  from fix_parenthesis_independent [of 2 4 "str ''LOC''" "str ''a (b) c''"] r n
  have b: "fix_parenthesis (2, 4, str ''LOC'') (str ''a (b) c'') = Inr (2, 5, str ''LOC'')"
    by simp
  from l r a b show ?thesis by blast
qed

section \<open>Span normalizer: slices of well placed spans\<close>

lemma py_slice_inside:
  assumes "0 \<le> a" "0 \<le> b" "b \<le> int (length xs)"
  shows "py_slice xs a b = drop (nat a) (take (nat b) xs)"
proof (cases "a \<le> int (length xs)")
  case True
  with assms show ?thesis by (simp add: py_slice_def Let_def min_def)
next
  case False
  with assms have "py_slice xs a b = drop (length xs) (take (nat b) xs)"
    by (simp add: py_slice_def Let_def min_def)
  with False show ?thesis by simp
qed

lemma startswith_iff: "startswith c s \<longleftrightarrow> s \<noteq> [] \<and> hd s = c"
  by (cases s) (simp_all add: startswith_def)

lemma endswith_iff: "endswith c s \<longleftrightarrow> s \<noteq> [] \<and> last s = c"
  by (cases s rule: rev_cases) (simp_all add: endswith_def)

lemma slice_ends:
  assumes "a < b" "b \<le> length xs"
  shows "hd (drop a (take b xs)) = xs ! a" "last (drop a (take b xs)) = xs ! (b - 1)"
proof -
  from assms have len: "length (take b xs) = b" by simp
  with assms show "hd (drop a (take b xs)) = xs ! a"
    by (simp add: hd_drop_conv_nth)
  from assms len have "last (drop a (take b xs)) = last (take b xs)" by simp
  also from assms len have "\<dots> = take b xs ! (b - 1)"
    by (subst last_conv_nth) auto
  also from assms have "\<dots> = xs ! (b - 1)" by simp
  finally show "last (drop a (take b xs)) = xs ! (b - 1)" .
qed

lemma well_placed_slice:
  assumes "well_placed uni text (a, b, l)" and "py_slice text a b \<noteq> []"
  shows "hd (py_slice text a b) = text ! nat a" "last (py_slice text a b) = text ! nat (b - 1)"
proof -
  from assms(1) have r: "0 \<le> a" "0 \<le> b" "b \<le> int (length text)"
    by (simp_all add: well_placed_def)
  then have s: "py_slice text a b = drop (nat a) (take (nat b) text)"
    by (rule py_slice_inside)
  with assms(2) r have lt: "nat a < nat b" "nat b \<le> length text" by auto
  have "nat b - 1 = nat (b - 1)" by simp
  with slice_ends [OF lt] s
  show "hd (py_slice text a b) = text ! nat a" "last (py_slice text a b) = text ! nat (b - 1)"
    by simp_all
qed

lemma well_placed_edges:
  assumes "well_placed uni text (a, b, l)" and "py_slice text a b \<noteq> []"
  shows "is_char uni (hd (py_slice text a b)) \<or> hd (py_slice text a b) = lparen"
    and "is_char uni (last (py_slice text a b)) \<or> last (py_slice text a b) = period
         \<or> last (py_slice text a b) = rparen"
  using assms(1) unfolding well_placed_slice [OF assms] by (simp_all add: well_placed_def)

lemma not_word_whitespace: "ascii_whitespace c \<Longrightarrow> \<not> is_char uni c"
  by (auto simp: ascii_whitespace_def is_char_def ascii_word_def)

lemma whitespace_not_punctuation:
  "ascii_whitespace c \<Longrightarrow> c \<noteq> lparen \<and> c \<noteq> rparen \<and> c \<noteq> period"
  by (auto simp: ascii_whitespace_def lparen_def rparen_def period_def)

lemma ascii_whitespace_space: "ascii_whitespace space"
  by (simp add: ascii_whitespace_def space_def)

lemma well_placed_no_whitespace:
  assumes "well_placed uni text (a, b, l)" and "py_slice text a b \<noteq> []"
  shows "\<not> ascii_whitespace (hd (py_slice text a b))"
    and "\<not> ascii_whitespace (last (py_slice text a b))"
  using well_placed_edges [OF assms] not_word_whitespace whitespace_not_punctuation
  by blast+

lemma well_placed_no_space:
  assumes "well_placed uni text (a, b, l)"
  shows "\<not> startswith space (py_slice text a b)" "\<not> endswith space (py_slice text a b)"
  using well_placed_no_whitespace [OF assms] ascii_whitespace_space
  unfolding startswith_iff endswith_iff by auto

section \<open>Span normalizer: every returned span is well placed\<close>

lemma py_index_inside: "0 \<le> i \<Longrightarrow> i < int (length xs) \<Longrightarrow> py_index xs i = Inr (xs ! nat i)"
  by (simp add: py_index_def)

lemma fix_parenthesis_well_placed:
  assumes s: "0 \<le> n0" "n0 < int (length text)" "is_char uni (text ! nat n0)"
    and e: "1 \<le> n1" "n1 \<le> int (length text)"
      "is_char uni (text ! nat (n1 - 1)) \<or> text ! nat (n1 - 1) = period"
  shows "\<exists>a b. fix_parenthesis (n0, n1, e2) text = Inr (a, b, e2)
               \<and> well_placed uni text (a, b, e2)"
proof -
  let ?a = "if opens_left text n0 n1 then n0 - 1 else n0"
  let ?b = "if closes_right text n0 n1 then n1 + 1 else n1"
  from s e have f: "fix_parenthesis (n0, n1, e2) text = Inr (?a, ?b, e2)"
    unfolding fix_parenthesis_cases by simp
  have a: "0 \<le> ?a \<and> ?a < int (length text)
           \<and> (is_char uni (text ! nat ?a) \<or> text ! nat ?a = lparen)"
  proof (cases "opens_left text n0 n1")
    case False
    with s show ?thesis by simp
  next
    case True
    then have "0 < n0" "py_index text (n0 - 1) = Inr lparen"
      by (simp_all add: opens_left_def)
    moreover from this s have "py_index text (n0 - 1) = Inr (text ! nat (n0 - 1))"
      by (intro py_index_inside) simp_all
    ultimately show ?thesis using True s by simp
  qed
  have b: "0 < ?b \<and> ?b \<le> int (length text)
           \<and> (is_char uni (text ! nat (?b - 1)) \<or> text ! nat (?b - 1) = period
                \<or> text ! nat (?b - 1) = rparen)"
  proof (cases "closes_right text n0 n1")
    case False
    with e show ?thesis by auto
  next
    case True
    then have "n1 < int (length text) - 1" "py_index text n1 = Inr rparen"
      by (simp_all add: closes_right_def)
    moreover from this e have "py_index text n1 = Inr (text ! nat n1)"
      by (intro py_index_inside) simp_all
    ultimately show ?thesis using True e by simp
  qed
  from a b have "well_placed uni text (?a, ?b, e2)"
    by (simp add: well_placed_def)
  with f show ?thesis by blast
qed

lemma fix_ent_well_placed:
  assumes "has_word uni text"
  shows "\<exists>a b. fix_ent uni text (e0, e1, e2) = Some (Inr (a, b, e2))
               \<and> well_placed uni text (a, b, e2)"
proof -
  from fix_char_index_returns [OF assms]
  obtain n0 n1 where n: "fix_char_index uni text e0 True = Some n0"
    "fix_char_index uni text e1 False = Some n1"
    by blast
  from fix_char_index_start [OF n(1)] fix_char_index_end [OF n(2)]
  have "\<exists>a b. fix_parenthesis (n0, n1, e2) text = Inr (a, b, e2)
               \<and> well_placed uni text (a, b, e2)"
    by (intro fix_parenthesis_well_placed) blast+
  then obtain a b where p: "fix_parenthesis (n0, n1, e2) text = Inr (a, b, e2)"
    and w: "well_placed uni text (a, b, e2)"
    by blast
  from well_placed_no_space [OF w] n p
  have "fix_ent uni text (e0, e1, e2) = Some (Inr (a, b, e2))"
    by (simp add: fix_ent_def Let_def)
  with w show ?thesis by blast
qed

lemma fix_ent_diverges:
  assumes "\<not> has_word uni text" shows "fix_ent uni text ent = None"
  using fix_char_index_diverges [OF assms]
  by (cases ent) (simp add: fix_ent_def)

lemma fix_borders_well_placed:
  assumes "has_word uni text"
  shows "\<exists>out. fix_borders uni ent_list text = Some (Inr out)
               \<and> length out = length ent_list
               \<and> map (\<lambda>x. snd (snd x)) out = map (\<lambda>x. snd (snd x)) ent_list
               \<and> list_all (well_placed uni text) out"
  unfolding fix_borders_def
proof (induction ent_list)
  case Nil
  show ?case by simp
next
  case (Cons ent ent_list)
  obtain e0 e1 e2 where ent: "ent = (e0, e1, e2)" by (cases ent)
  from fix_ent_well_placed [OF assms, of e0 e1 e2]
  obtain a b where h: "fix_ent uni text ent = Some (Inr (a, b, e2))"
    "well_placed uni text (a, b, e2)"
    unfolding ent by blast
  from Cons.IH obtain out where t: "fix_borders_main uni ent_list text = Some (Inr out)"
    "length out = length ent_list"
    "map (\<lambda>x. snd (snd x)) out = map (\<lambda>x. snd (snd x)) ent_list"
    "list_all (well_placed uni text) out"
    by blast
  from h t have "fix_borders_main uni (ent # ent_list) text = Some (Inr ((a, b, e2) # out))"
    by simp
  with h t ent show ?case by simp
qed

lemma fix_borders_diverges:
  assumes "\<not> has_word uni text" and "ent_list \<noteq> []"
  shows "fix_borders uni ent_list text = None"
  using assms(2) fix_ent_diverges [OF assms(1)]
  by (cases ent_list) (simp_all add: fix_borders_def)

section \<open>Boundary search: the border found is the nearest\<close>

lemma search_first_hit:
  assumes "search uni t m st = Some c"
  shows "\<exists>k. fst ((advance ^^ k) st) = c
           \<and> (\<forall>j<k. \<not> probe uni t m (fst ((advance ^^ j) st)))"
proof (rule search.raw_induct
    [where P = "\<lambda>uni t m st c. \<exists>k. fst ((advance ^^ k) st) = c
                  \<and> (\<forall>j<k. \<not> probe uni t m (fst ((advance ^^ j) st)))", OF _ assms])
  fix srch :: "(codepoint \<Rightarrow> bool) \<Rightarrow> pystr \<Rightarrow> bool \<Rightarrow> int \<times> int \<Rightarrow> int option"
  fix uni t m st c
  assume ih: "\<And>uni t m st c. srch uni t m st = Some c \<Longrightarrow>
      \<exists>k. fst ((advance ^^ k) st) = c \<and> (\<forall>j<k. \<not> probe uni t m (fst ((advance ^^ j) st)))"
    and step: "(if probe uni t m (fst st) then Some (fst st) else srch uni t m (advance st)) = Some c"
  show "\<exists>k. fst ((advance ^^ k) st) = c \<and> (\<forall>j<k. \<not> probe uni t m (fst ((advance ^^ j) st)))"
  proof (cases "probe uni t m (fst st)")
    case True
    with step have "fst ((advance ^^ 0) st) = c" by simp
    then show ?thesis by blast
  next
    case False
    with step have "srch uni t m (advance st) = Some c" by simp
    from ih [OF this] obtain k where k: "fst ((advance ^^ k) (advance st)) = c"
      "\<forall>j<k. \<not> probe uni t m (fst ((advance ^^ j) (advance st)))"
      by blast
    have "fst ((advance ^^ Suc k) st) = c" using k(1) by (simp add: funpow_swap1)
    moreover have "\<not> probe uni t m (fst ((advance ^^ j) st))" if "j < Suc k" for j
    proof (cases j)
      case 0
      with False show ?thesis by simp
    next
      case (Suc i)
      with that k(2) show ?thesis by (simp add: funpow_swap1)
    qed
    ultimately show ?thesis by blast
  qed
qed

lemma pos_start:
  "fst ((advance ^^ n) (p, - 1)) = (if even n then p + int (n div 2) else p - int (Suc n div 2))"
proof (cases "even n")
  case True
  then obtain j where "n = 2 * j" by (elim evenE)
  then show ?thesis by (simp add: advance_start [THEN conjunct1])
next
  case False
  then obtain j where "n = Suc (2 * j)" by (elim oddE) simp
  then show ?thesis by (simp only: advance_start [THEN conjunct2]) simp
qed

lemma pos_end:
  "fst ((advance ^^ n) (p, 1)) = (if even n then p - int (n div 2) else p + int (Suc n div 2))"
proof (cases "even n")
  case True
  then obtain j where "n = 2 * j" by (elim evenE)
  then show ?thesis by (simp add: advance_end [THEN conjunct1])
next
  case False
  then obtain j where "n = Suc (2 * j)" by (elim oddE) simp
  then show ?thesis by (simp only: advance_end [THEN conjunct2]) simp
qed

lemma order_start:
  assumes "k \<le> j"
  shows "\<bar>fst ((advance ^^ k) (p, - 1)) - p\<bar> < \<bar>fst ((advance ^^ j) (p, - 1)) - p\<bar>
         \<or> (\<bar>fst ((advance ^^ k) (p, - 1)) - p\<bar> = \<bar>fst ((advance ^^ j) (p, - 1)) - p\<bar>
             \<and> fst ((advance ^^ k) (p, - 1)) \<le> fst ((advance ^^ j) (p, - 1)))"
  unfolding pos_start using assms by (auto elim!: evenE oddE)

lemma order_end:
  assumes "k \<le> j"
  shows "\<bar>fst ((advance ^^ k) (p, 1)) - p\<bar> < \<bar>fst ((advance ^^ j) (p, 1)) - p\<bar>
         \<or> (\<bar>fst ((advance ^^ k) (p, 1)) - p\<bar> = \<bar>fst ((advance ^^ j) (p, 1)) - p\<bar>
             \<and> fst ((advance ^^ j) (p, 1)) \<le> fst ((advance ^^ k) (p, 1)))"
  unfolding pos_end using assms by (auto elim!: evenE oddE)


lemma search_nearest_start:
  assumes "search uni t True (p, - 1) = Some c" and "probe uni t True b"
  shows "\<bar>c - p\<bar> < \<bar>b - p\<bar> \<or> (\<bar>c - p\<bar> = \<bar>b - p\<bar> \<and> c \<le> b)"
proof -
  from search_first_hit [OF assms(1)]
  obtain k where k: "fst ((advance ^^ k) (p, - 1)) = c"
    "\<forall>j<k. \<not> probe uni t True (fst ((advance ^^ j) (p, - 1)))"
    by blast
  from reach_start [of b p] obtain j where j: "fst ((advance ^^ j) (p, - 1)) = b"
    by blast
  with k(2) assms(2) have "k \<le> j" by (metis not_le_imp_less)
  from order_start [OF this, of p] show ?thesis unfolding k(1) j .
qed

lemma search_nearest_end:
  assumes "search uni t False (p, 1) = Some c" and "probe uni t False b"
  shows "\<bar>c - p\<bar> < \<bar>b - p\<bar> \<or> (\<bar>c - p\<bar> = \<bar>b - p\<bar> \<and> b \<le> c)"
proof -
  from search_first_hit [OF assms(1)]
  obtain k where k: "fst ((advance ^^ k) (p, 1)) = c"
    "\<forall>j<k. \<not> probe uni t False (fst ((advance ^^ j) (p, 1)))"
    by blast
  from reach_end [of b p] obtain j where j: "fst ((advance ^^ j) (p, 1)) = b"
    by blast
  with k(2) assms(2) have "k \<le> j" by (metis not_le_imp_less)
  from order_end [OF this, of p] show ?thesis unfolding k(1) j .
qed

lemma fix_char_index_start_nearest:
  assumes "fix_char_index uni text i True = Some r"
  shows "probe uni (pad text) True (r + 1)
         \<and> (\<forall>b. probe uni (pad text) True (b + 1)
               \<longrightarrow> \<bar>r - i\<bar> < \<bar>b - i\<bar> \<or> (\<bar>r - i\<bar> = \<bar>b - i\<bar> \<and> r \<le> b))"
proof -
  from fix_char_index_start [OF assms]
  have s: "search uni (pad text) True (i + 1, - 1) = Some (r + 1)" by blast
  have "\<bar>r - i\<bar> < \<bar>b - i\<bar> \<or> (\<bar>r - i\<bar> = \<bar>b - i\<bar> \<and> r \<le> b)"
    if "probe uni (pad text) True (b + 1)" for b
    using search_nearest_start [OF s that] by simp
  with search_probe [OF s] show ?thesis by blast
qed

lemma fix_char_index_end_nearest:
  assumes "fix_char_index uni text i False = Some r"
  shows "\<exists>c. probe uni (pad text) False (c + 1)
           \<and> (\<forall>b. probe uni (pad text) False (b + 1)
                 \<longrightarrow> \<bar>c - i\<bar> < \<bar>b - i\<bar> \<or> (\<bar>c - i\<bar> = \<bar>b - i\<bar> \<and> b \<le> c))
           \<and> r = (if is_abbreviation (pad text) (c + 1) then c + 1 else c)"
proof -
  from assms obtain c' where c: "search uni (pad text) False (i + 1, 1) = Some c'"
    "r = (if is_abbreviation (pad text) c' then c' + 1 else c') - 1"
    unfolding fix_char_index_Some by auto
  have "\<bar>c' - 1 - i\<bar> < \<bar>b - i\<bar> \<or> (\<bar>c' - 1 - i\<bar> = \<bar>b - i\<bar> \<and> b \<le> c' - 1)"
    if "probe uni (pad text) False (b + 1)" for b
    using search_nearest_end [OF c(1) that] by arith
  moreover from search_probe [OF c(1)] have "probe uni (pad text) False (c' - 1 + 1)" by simp
  moreover from c(2) have "r = (if is_abbreviation (pad text) (c' - 1 + 1) then c' - 1 + 1 else c' - 1)"
    by simp
  ultimately show ?thesis by blast
qed

lemma fix_ent_relocates:
  assumes "has_word uni text"
  shows "\<exists>n0 n1 ent_new. fix_ent uni text (e0, e1, e2) = Some (Inr ent_new)
           \<and> fix_char_index uni text e0 True = Some n0
           \<and> fix_char_index uni text e1 False = Some n1
           \<and> fix_parenthesis (n0, n1, e2) text = Inr ent_new"
proof -
  from fix_char_index_returns [OF assms]
  obtain n0 n1 where n: "fix_char_index uni text e0 True = Some n0"
    "fix_char_index uni text e1 False = Some n1"
    by blast
  from fix_char_index_start [OF n(1)] fix_char_index_end [OF n(2)]
  have "\<exists>a b. fix_parenthesis (n0, n1, e2) text = Inr (a, b, e2)
               \<and> well_placed uni text (a, b, e2)"
    by (intro fix_parenthesis_well_placed) blast+
  then obtain a b where p: "fix_parenthesis (n0, n1, e2) text = Inr (a, b, e2)"
    and w: "well_placed uni text (a, b, e2)"
    by blast
  from well_placed_no_space [OF w] n p
  have "fix_ent uni text (e0, e1, e2) = Some (Inr (a, b, e2))"
    by (simp add: fix_ent_def Let_def)
  with n p show ?thesis by blast
qed

lemma fix_borders_relocates:
  assumes "has_word uni text"
  shows "\<exists>out. fix_borders uni ent_list text = Some (Inr out)
           \<and> list_all2 (\<lambda>ent ent_new. \<exists>n0 n1.
                 fix_char_index uni text (fst ent) True = Some n0
                 \<and> fix_char_index uni text (fst (snd ent)) False = Some n1
                 \<and> fix_parenthesis (n0, n1, snd (snd ent)) text = Inr ent_new) ent_list out"
  unfolding fix_borders_def
proof (induction ent_list)
  case Nil
  show ?case by simp
next
  case (Cons ent ent_list)
  obtain e0 e1 e2 where ent: "ent = (e0, e1, e2)" by (cases ent)
  from fix_ent_relocates [OF assms, of e0 e1 e2]
  obtain n0 n1 ent_new where h: "fix_ent uni text ent = Some (Inr ent_new)"
    "fix_char_index uni text e0 True = Some n0"
    "fix_char_index uni text e1 False = Some n1"
    "fix_parenthesis (n0, n1, e2) text = Inr ent_new"
    unfolding ent by blast
  from Cons.IH obtain out where t: "fix_borders_main uni ent_list text = Some (Inr out)"
    "list_all2 (\<lambda>ent ent_new. \<exists>n0 n1.
                 fix_char_index uni text (fst ent) True = Some n0
                 \<and> fix_char_index uni text (fst (snd ent)) False = Some n1
                 \<and> fix_parenthesis (n0, n1, snd (snd ent)) text = Inr ent_new) ent_list out"
    by blast
  from h(1) t(1)
  have "fix_borders_main uni (ent # ent_list) text = Some (Inr (ent_new # out))"
    by simp
  moreover from h(2-4) t(2) ent
  have "list_all2 (\<lambda>ent ent_new. \<exists>n0 n1.
                 fix_char_index uni text (fst ent) True = Some n0
                 \<and> fix_char_index uni text (fst (snd ent)) False = Some n1
                 \<and> fix_parenthesis (n0, n1, snd (snd ent)) text = Inr ent_new)
          (ent # ent_list) (ent_new # out)"
    by simp
  ultimately show ?case by blast
qed

section \<open>Span normalizer: properties\<close>

text \<open>
  C4: on a text with at least one word character, for any list of spans,
  \<open>fix_borders\<close> returns normally, so the assertion is never triggered; the substring
  of each returned span neither starts nor ends with a space, nor with any other ASCII
  white space: when it is not empty, it starts with a word character or an opening
  parenthesis and ends with a word character, a period or a closing parenthesis.
\<close>

theorem fix_borders_no_outer_whitespace:
  assumes "has_word uni text"
  shows "\<exists>out. fix_borders uni ent_list text = Some (Inr out)
           \<and> length out = length ent_list
           \<and> (\<forall>(n0, n1, e2)\<in>set out.
                 \<not> startswith space (py_slice text n0 n1)
                 \<and> \<not> endswith space (py_slice text n0 n1)
                 \<and> (py_slice text n0 n1 \<noteq> [] \<longrightarrow>
                      \<not> ascii_whitespace (hd (py_slice text n0 n1))
                      \<and> \<not> ascii_whitespace (last (py_slice text n0 n1))
                      \<and> (is_char uni (hd (py_slice text n0 n1))
                           \<or> hd (py_slice text n0 n1) = lparen)
                      \<and> (is_char uni (last (py_slice text n0 n1))
                           \<or> last (py_slice text n0 n1) = period
                           \<or> last (py_slice text n0 n1) = rparen)))"
proof -
  from fix_borders_well_placed [OF assms]
  obtain out where o: "fix_borders uni ent_list text = Some (Inr out)"
    "length out = length ent_list" "list_all (well_placed uni text) out"
    by blast
  have "\<not> startswith space (py_slice text n0 n1)
        \<and> \<not> endswith space (py_slice text n0 n1)
        \<and> (py_slice text n0 n1 \<noteq> [] \<longrightarrow>
             \<not> ascii_whitespace (hd (py_slice text n0 n1))
             \<and> \<not> ascii_whitespace (last (py_slice text n0 n1))
             \<and> (is_char uni (hd (py_slice text n0 n1)) \<or> hd (py_slice text n0 n1) = lparen)
             \<and> (is_char uni (last (py_slice text n0 n1))
                  \<or> last (py_slice text n0 n1) = period
                  \<or> last (py_slice text n0 n1) = rparen))"
    if "(n0, n1, e2) \<in> set out" for n0 n1 e2
  proof -
    from that o(3) have w: "well_placed uni text (n0, n1, e2)"
      by (simp add: list_all_iff)
    show ?thesis
      using well_placed_no_space [OF w] well_placed_no_whitespace [OF w] well_placed_edges [OF w]
      by blast
  qed
  with o(1,2) show ?thesis by blast
qed

theorem fix_borders_no_outer_whitespace_witness:
  "has_word ascii_only (str ''Er zog  nach Wien.'')
   \<and> fix_borders ascii_only [(6, 13, str ''LOC''), (12, 18, str ''LOC'')] (str ''Er zog  nach Wien.'')
       = Some (Inr [(8, 12, str ''LOC''), (13, 17, str ''LOC'')])
   \<and> py_slice (str ''Er zog  nach Wien.'') 13 17 = str ''Wien''
   \<and> \<not> startswith space (py_slice (str ''Er zog  nach Wien.'') 13 17)
   \<and> \<not> endswith space (py_slice (str ''Er zog  nach Wien.'') 13 17)"
proof -
  have h: "has_word ascii_only (str ''Er zog  nach Wien.'')" by code_simp
  have v: "fix_borders ascii_only [(6, 13, str ''LOC''), (12, 18, str ''LOC'')]
             (str ''Er zog  nach Wien.'')
           = Some (Inr [(8, 12, str ''LOC''), (13, 17, str ''LOC'')])"
    by code_simp
  have s: "py_slice (str ''Er zog  nach Wien.'') 13 17 = str ''Wien''" by code_simp
  from fix_borders_no_outer_whitespace
         [OF h, of "[(6, 13, str ''LOC''), (12, 18, str ''LOC'')]"]
  have "\<not> startswith space (py_slice (str ''Er zog  nach Wien.'') 13 17)
        \<and> \<not> endswith space (py_slice (str ''Er zog  nach Wien.'') 13 17)"
    unfolding v by auto
  with h v s show ?thesis by blast
qed

text \<open>
  C6, as stated: the returned span has its start before its end. The two offsets are
  searched for independently, and on \<^verbatim>\<open>ab cd\<close> the span \<open>(2, 3)\<close>, the space, becomes
  \<open>(3, 2)\<close>: the nearest START border is to its right, the nearest END border to its
  left.
\<close>

theorem fix_borders_start_after_end:
  "has_word ascii_only (str ''ab cd'')
   \<and> fix_borders ascii_only [(2, 3, str ''X'')] (str ''ab cd'') = Some (Inr [(3, 2, str ''X'')])"
  by code_simp

text \<open>
  C6, amended: on a text with at least one word character every returned span has
  \<open>0 \<le> start < len(text)\<close> and \<open>0 < end \<le> len(text)\<close>; that the start is before the
  end is not part of it.
\<close>

theorem fix_borders_within_text:
  assumes "has_word uni text"
  shows "\<exists>out. fix_borders uni ent_list text = Some (Inr out)
           \<and> length out = length ent_list
           \<and> (\<forall>(n0, n1, e2)\<in>set out.
                 0 \<le> n0 \<and> n0 < int (length text) \<and> 0 < n1 \<and> n1 \<le> int (length text))"
proof -
  from fix_borders_well_placed [OF assms]
  obtain out where o: "fix_borders uni ent_list text = Some (Inr out)"
    "length out = length ent_list" "list_all (well_placed uni text) out"
    by blast
  from o(3) have "\<forall>(n0, n1, e2)\<in>set out.
      0 \<le> n0 \<and> n0 < int (length text) \<and> 0 < n1 \<and> n1 \<le> int (length text)"
    by (auto simp: list_all_iff well_placed_def)
  with o(1,2) show ?thesis by blast
qed

theorem fix_borders_within_text_witness:
  "has_word ascii_only (str ''ab cd'')
   \<and> fix_borders ascii_only [(1, 4, str ''X'')] (str ''ab cd'') = Some (Inr [(0, 5, str ''X'')])
   \<and> (0::int) \<le> 0 \<and> (0::int) < int (length (str ''ab cd''))
   \<and> (0::int) < 5 \<and> (5::int) \<le> int (length (str ''ab cd''))"
proof -
  have h: "has_word ascii_only (str ''ab cd'')" by code_simp
  have v: "fix_borders ascii_only [(1, 4, str ''X'')] (str ''ab cd'') = Some (Inr [(0, 5, str ''X'')])"
    by code_simp
  from fix_borders_within_text [OF h, of "[(1, 4, str ''X'')]"]
  have "(0::int) \<le> 0 \<and> (0::int) < int (length (str ''ab cd''))
        \<and> (0::int) < 5 \<and> (5::int) \<le> int (length (str ''ab cd''))"
    unfolding v by auto
  with h v show ?thesis by blast
qed

text \<open>
  C7, as stated: a span with offsets outside the text or with its start not before its
  end makes the program fail. Nothing in \<^verbatim>\<open>clean.py\<close> looks at the offsets before the
  search: on \<^verbatim>\<open>ab\<close> the spans \<open>(5, 1)\<close> and \<open>(-3, 40)\<close> both come back as \<open>(0, 2)\<close>.
\<close>

theorem fix_borders_accepts_malformed:
  "fix_borders ascii_only [(5, 1, str ''X'')] (str ''ab'') = Some (Inr [(0, 2, str ''X'')])
   \<and> fix_borders ascii_only [(- 3, 40, str ''X'')] (str ''ab'') = Some (Inr [(0, 2, str ''X'')])"
  by code_simp

text \<open>
  C7, amended: \<open>fix_borders\<close> raises no error on any span list, malformed spans
  included. On a text with at least one word character it returns one span per input
  span, label unchanged, whatever the offsets are: the start is replaced by the START
  border nearest to it (the left one of two equally near), the end by the END border
  nearest to it (the right one of two equally near), plus one when the character at that
  border is an abbreviation period; the parenthesis repair then moves the start one to
  the left or the end one to the right when its test holds. On a text without a word
  character, and a list that is not empty, it never returns.
\<close>

theorem fix_borders_never_raises:
  "fix_borders uni ent_list text \<noteq> Some (Inl err)
   \<and> (has_word uni text \<longrightarrow>
        (\<exists>out. fix_borders uni ent_list text = Some (Inr out)
           \<and> length out = length ent_list
           \<and> map (\<lambda>x. snd (snd x)) out = map (\<lambda>x. snd (snd x)) ent_list
           \<and> list_all2 (\<lambda>ent ent_new. \<exists>n0 c n1.
                 probe uni (pad text) True (n0 + 1)
                 \<and> (\<forall>b. probe uni (pad text) True (b + 1) \<longrightarrow>
                       \<bar>n0 - fst ent\<bar> < \<bar>b - fst ent\<bar>
                       \<or> (\<bar>n0 - fst ent\<bar> = \<bar>b - fst ent\<bar> \<and> n0 \<le> b))
                 \<and> probe uni (pad text) False (c + 1)
                 \<and> (\<forall>b. probe uni (pad text) False (b + 1) \<longrightarrow>
                       \<bar>c - fst (snd ent)\<bar> < \<bar>b - fst (snd ent)\<bar>
                       \<or> (\<bar>c - fst (snd ent)\<bar> = \<bar>b - fst (snd ent)\<bar> \<and> b \<le> c))
                 \<and> n1 = (if is_abbreviation (pad text) (c + 1) then c + 1 else c)
                 \<and> fix_char_index uni text (fst ent) True = Some n0
                 \<and> fix_char_index uni text (fst (snd ent)) False = Some n1
                 \<and> ent_new = (if opens_left text n0 n1 then n0 - 1 else n0,
                              if closes_right text n0 n1 then n1 + 1 else n1,
                              snd (snd ent)))
               ent_list out))
   \<and> (\<not> has_word uni text \<and> ent_list \<noteq> [] \<longrightarrow> fix_borders uni ent_list text = None)"
proof (cases "has_word uni text")
  case True
  from fix_borders_well_placed [OF True, of ent_list]
  obtain out where o: "fix_borders uni ent_list text = Some (Inr out)"
    "length out = length ent_list"
    "map (\<lambda>x. snd (snd x)) out = map (\<lambda>x. snd (snd x)) ent_list"
    by blast
  from fix_borders_relocates [OF True, of ent_list] o(1)
  have q: "list_all2 (\<lambda>ent ent_new. \<exists>n0 n1.
                 fix_char_index uni text (fst ent) True = Some n0
                 \<and> fix_char_index uni text (fst (snd ent)) False = Some n1
                 \<and> fix_parenthesis (n0, n1, snd (snd ent)) text = Inr ent_new) ent_list out"
    by simp
  have "list_all2 (\<lambda>ent ent_new. \<exists>n0 c n1.
                 probe uni (pad text) True (n0 + 1)
                 \<and> (\<forall>b. probe uni (pad text) True (b + 1) \<longrightarrow>
                       \<bar>n0 - fst ent\<bar> < \<bar>b - fst ent\<bar>
                       \<or> (\<bar>n0 - fst ent\<bar> = \<bar>b - fst ent\<bar> \<and> n0 \<le> b))
                 \<and> probe uni (pad text) False (c + 1)
                 \<and> (\<forall>b. probe uni (pad text) False (b + 1) \<longrightarrow>
                       \<bar>c - fst (snd ent)\<bar> < \<bar>b - fst (snd ent)\<bar>
                       \<or> (\<bar>c - fst (snd ent)\<bar> = \<bar>b - fst (snd ent)\<bar> \<and> b \<le> c))
                 \<and> n1 = (if is_abbreviation (pad text) (c + 1) then c + 1 else c)
                 \<and> fix_char_index uni text (fst ent) True = Some n0
                 \<and> fix_char_index uni text (fst (snd ent)) False = Some n1
                 \<and> ent_new = (if opens_left text n0 n1 then n0 - 1 else n0,
                              if closes_right text n0 n1 then n1 + 1 else n1,
                              snd (snd ent)))
               ent_list out"
  proof (rule list_all2_mono [OF q])
    fix ent ent_new
    assume "\<exists>n0 n1. fix_char_index uni text (fst ent) True = Some n0
                 \<and> fix_char_index uni text (fst (snd ent)) False = Some n1
                 \<and> fix_parenthesis (n0, n1, snd (snd ent)) text = Inr ent_new"
    then obtain n0 n1 where n: "fix_char_index uni text (fst ent) True = Some n0"
      "fix_char_index uni text (fst (snd ent)) False = Some n1"
      "fix_parenthesis (n0, n1, snd (snd ent)) text = Inr ent_new"
      by blast
    from fix_char_index_end_nearest [OF n(2)]
    obtain c where c: "probe uni (pad text) False (c + 1)"
      "\<forall>b. probe uni (pad text) False (b + 1) \<longrightarrow>
            \<bar>c - fst (snd ent)\<bar> < \<bar>b - fst (snd ent)\<bar>
            \<or> (\<bar>c - fst (snd ent)\<bar> = \<bar>b - fst (snd ent)\<bar> \<and> b \<le> c)"
      "n1 = (if is_abbreviation (pad text) (c + 1) then c + 1 else c)"
      by blast
    from fix_char_index_start [OF n(1)] fix_char_index_end [OF n(2)]
    have "n0 < int (length text)" "1 \<le> n1" by blast+
    with n(3) have "ent_new = (if opens_left text n0 n1 then n0 - 1 else n0,
                              if closes_right text n0 n1 then n1 + 1 else n1,
                              snd (snd ent))"
      unfolding fix_parenthesis_cases by (simp split: if_splits)
    with fix_char_index_start_nearest [OF n(1)] c n(1,2)
    show "\<exists>n0 c n1.
                 probe uni (pad text) True (n0 + 1)
                 \<and> (\<forall>b. probe uni (pad text) True (b + 1) \<longrightarrow>
                       \<bar>n0 - fst ent\<bar> < \<bar>b - fst ent\<bar>
                       \<or> (\<bar>n0 - fst ent\<bar> = \<bar>b - fst ent\<bar> \<and> n0 \<le> b))
                 \<and> probe uni (pad text) False (c + 1)
                 \<and> (\<forall>b. probe uni (pad text) False (b + 1) \<longrightarrow>
                       \<bar>c - fst (snd ent)\<bar> < \<bar>b - fst (snd ent)\<bar>
                       \<or> (\<bar>c - fst (snd ent)\<bar> = \<bar>b - fst (snd ent)\<bar> \<and> b \<le> c))
                 \<and> n1 = (if is_abbreviation (pad text) (c + 1) then c + 1 else c)
                 \<and> fix_char_index uni text (fst ent) True = Some n0
                 \<and> fix_char_index uni text (fst (snd ent)) False = Some n1
                 \<and> ent_new = (if opens_left text n0 n1 then n0 - 1 else n0,
                              if closes_right text n0 n1 then n1 + 1 else n1,
                              snd (snd ent))"
      by blast
  qed
  with o True show ?thesis by auto
next
  case False
  show ?thesis
  proof (cases "ent_list = []")
    case True
    with False show ?thesis by (simp add: fix_borders_def)
  next
    case ne: False
    from fix_borders_diverges [OF False ne] False show ?thesis by simp
  qed
qed


theorem fix_borders_never_raises_witness:
  "has_word ascii_only (str ''ab'')
   \<and> fix_borders ascii_only [(5, 1, str ''X'')] (str ''ab'') = Some (Inr [(0, 2, str ''X'')])
   \<and> fix_char_index ascii_only (str ''ab'') 5 True = Some 0
   \<and> probe ascii_only (pad (str ''ab'')) True (0 + 1)
   \<and> \<not> has_word ascii_only (str ''- -'')
   \<and> fix_borders ascii_only [(5, 1, str ''X'')] (str ''- -'') = None"
proof -
  have h: "has_word ascii_only (str ''ab'')" by code_simp
  have n: "\<not> has_word ascii_only (str ''- -'')" by code_simp
  have v: "fix_borders ascii_only [(5, 1, str ''X'')] (str ''ab'') = Some (Inr [(0, 2, str ''X'')])"
    by code_simp
  have f: "fix_char_index ascii_only (str ''ab'') 5 True = Some 0" by code_simp
  from fix_borders_never_raises [of ascii_only "[(5, 1, str ''X'')]" "str ''ab''"] h
  obtain n0 where "probe ascii_only (pad (str ''ab'')) True (n0 + 1)"
    "fix_char_index ascii_only (str ''ab'') 5 True = Some n0"
    unfolding v by (auto simp: list_all2_Cons1)
  with f have p: "probe ascii_only (pad (str ''ab'')) True (0 + 1)" by simp
  from fix_borders_never_raises [of ascii_only "[(5, 1, str ''X'')]" "str ''- -''"] n
  have "fix_borders ascii_only [(5, 1, str ''X'')] (str ''- -'') = None" by simp
  with h n v f p show ?thesis by blast
qed

section \<open>Span normalizer: spans already at their borders\<close>

lemma search_at_border:
  assumes "probe uni t m c" shows "search uni t m (c, d) = Some c"
  using assms by (subst search.simps) simp

text \<open>
  C2, as stated: a span whose start is at a START border and whose end is at an END
  border comes back unchanged, and so does an index that is at a border. Two rules of
  the code move such a span. In \<^verbatim>\<open>N.O. ist\<close> the index 1 is an END border, between the
  N and a period that does not end the sentence: the abbreviation rule returns 2. In
  \<^verbatim>\<open>(a)b c\<close> the span \<open>(1, 4)\<close> is at its borders and holds one closing parenthesis
  more than opening ones: the parenthesis repair returns \<open>(0, 4)\<close>.
\<close>

theorem fix_borders_changes_bounded_span:
  "probe ascii_only (pad (str ''N.O. ist'')) True (0 + 1)
   \<and> probe ascii_only (pad (str ''N.O. ist'')) False (1 + 1)
   \<and> fix_char_index ascii_only (str ''N.O. ist'') 1 False = Some 2
   \<and> fix_borders ascii_only [(0, 1, str ''L'')] (str ''N.O. ist'') = Some (Inr [(0, 2, str ''L'')])
   \<and> probe ascii_only (pad (str ''(a)b c'')) True (1 + 1)
   \<and> probe ascii_only (pad (str ''(a)b c'')) False (4 + 1)
   \<and> fix_borders ascii_only [(1, 4, str ''L'')] (str ''(a)b c'') = Some (Inr [(0, 4, str ''L'')])"
  by code_simp

text \<open>
  C2, amended: for a start at a START border and an end at an END border,
  \<open>fix_char_index\<close> returns the start unchanged; it returns the end unchanged unless
  the character at the end is an abbreviation period, and then the end plus one; and
  \<open>fix_borders\<close> returns the span unchanged when the end is not at an abbreviation
  period and neither test of the parenthesis repair holds.
\<close>

theorem fix_borders_keeps_bounded_span:
  assumes "probe uni (pad text) True (s + 1)" and "probe uni (pad text) False (e + 1)"
  shows "fix_char_index uni text s True = Some s
       \<and> fix_char_index uni text e False
           = Some (if is_abbreviation (pad text) (e + 1) then e + 1 else e)
       \<and> (\<not> is_abbreviation (pad text) (e + 1) \<and> \<not> opens_left text s e
            \<and> \<not> closes_right text s e
          \<longrightarrow> fix_borders uni [(s, e, l)] text = Some (Inr [(s, e, l)]))"
proof -
  from search_at_border [OF assms(1), of "- 1"] start_no_abbreviation [OF assms(1)]
  have a: "fix_char_index uni text s True = Some s"
    unfolding fix_char_index_Some by simp
  from search_at_border [OF assms(2), of 1]
  have b: "fix_char_index uni text e False
             = Some (if is_abbreviation (pad text) (e + 1) then e + 1 else e)"
    unfolding fix_char_index_Some by simp
  have "fix_borders uni [(s, e, l)] text = Some (Inr [(s, e, l)])"
    if n: "\<not> is_abbreviation (pad text) (e + 1)" "\<not> opens_left text s e"
      "\<not> closes_right text s e"
  proof -
    from b n have b': "fix_char_index uni text e False = Some e" by simp
    from fix_char_index_start [OF a] fix_char_index_end [OF b']
    have "\<exists>a b. fix_parenthesis (s, e, l) text = Inr (a, b, l) \<and> well_placed uni text (a, b, l)"
      by (intro fix_parenthesis_well_placed) blast+
    then obtain a' b' where p: "fix_parenthesis (s, e, l) text = Inr (a', b', l)"
      and w: "well_placed uni text (a', b', l)"
      by blast
    from p n have "a' = s" "b' = e"
      unfolding fix_parenthesis_cases by (simp_all split: if_splits)
    with p w have p': "fix_parenthesis (s, e, l) text = Inr (s, e, l)"
      and w': "well_placed uni text (s, e, l)"
      by simp_all
    from well_placed_no_space [OF w'] a b' p'
    have "fix_ent uni text (s, e, l) = Some (Inr (s, e, l))"
      by (simp add: fix_ent_def Let_def)
    then show ?thesis by (simp add: fix_borders_def)
  qed
  with a b show ?thesis by blast
qed

theorem fix_borders_keeps_bounded_span_witness:
  "probe ascii_only (pad (str ''Er zog  nach Wien.'')) True (13 + 1)
   \<and> probe ascii_only (pad (str ''Er zog  nach Wien.'')) False (17 + 1)
   \<and> \<not> is_abbreviation (pad (str ''Er zog  nach Wien.'')) (17 + 1)
   \<and> \<not> opens_left (str ''Er zog  nach Wien.'') 13 17
   \<and> \<not> closes_right (str ''Er zog  nach Wien.'') 13 17
   \<and> fix_char_index ascii_only (str ''Er zog  nach Wien.'') 13 True = Some 13
   \<and> fix_char_index ascii_only (str ''Er zog  nach Wien.'') 17 False = Some 17
   \<and> fix_borders ascii_only [(13, 17, str ''LOC'')] (str ''Er zog  nach Wien.'')
       = Some (Inr [(13, 17, str ''LOC'')])"
proof -
  have h: "probe ascii_only (pad (str ''Er zog  nach Wien.'')) True (13 + 1)"
    "probe ascii_only (pad (str ''Er zog  nach Wien.'')) False (17 + 1)"
    by code_simp+
  have n: "\<not> is_abbreviation (pad (str ''Er zog  nach Wien.'')) (17 + 1)"
    "\<not> opens_left (str ''Er zog  nach Wien.'') 13 17"
    "\<not> closes_right (str ''Er zog  nach Wien.'') 13 17"
    by code_simp+
  from fix_borders_keeps_bounded_span [OF h, of "str ''LOC''"] h n show ?thesis by simp
qed

section \<open>Label noise: properties\<close>

lemma sub_noise_noisy_shorter: "noisy l \<Longrightarrow> length (sub_noise l) < length l"
  by (induction l) (auto simp: less_Suc_eq_le length_dropWhile_le)

lemma sub_noise_fixed_iff: "sub_noise l = l \<longleftrightarrow> \<not> noisy l"
proof
  assume "sub_noise l = l"
  then show "\<not> noisy l" using sub_noise_noisy_shorter [of l] by auto
next
  assume "\<not> noisy l"
  then show "sub_noise l = l" by (induction l) auto
qed

lemma not_noisy_without_hyphen: "hyphen \<notin> set l \<Longrightarrow> \<not> noisy l"
  by (induction l) auto

lemma one_hyphen_clean: "count_list l hyphen \<le> 1 \<Longrightarrow> \<not> noisy (sub_noise l)"
proof (induction l)
  case Nil
  then show ?case by simp
next
  case (Cons c cs)
  show ?case
  proof (cases "c = hyphen")
    case False
    with Cons show ?thesis by simp
  next
    case True
    with Cons.prems have "hyphen \<notin> set cs"
      by (simp add: count_list_0_iff)
    then have cs: "\<not> noisy cs" by (rule not_noisy_without_hyphen)
    show ?thesis
    proof (cases "at_dollar (dropWhile is_digit cs)")
      case True
      then consider "dropWhile is_digit cs = []" | "dropWhile is_digit cs = [newline]"
        unfolding at_dollar_def by blast
      then have "\<not> noisy (dropWhile is_digit cs)"
        by cases (simp_all only: noisy.simps newline_def hyphen_def, simp_all)
      with True \<open>c = hyphen\<close> show ?thesis by simp
    next
      case False
      with cs show ?thesis by (simp add: sub_noise_fixed_iff [THEN iffD2])
    qed
  qed
qed

lemma remove_ner_noise_twice:
  "remove_ner_noise (remove_ner_noise x) = remove_ner_noise x
   \<longleftrightarrow> (\<forall>e\<in>set x. \<not> noisy (sub_noise (snd (snd e))))"
  by (induction x) (auto simp: remove_ner_noise_def sub_noise_fixed_iff)

text \<open>
  C5, as stated: stripping twice is the same as stripping once. It is not: the pattern
  is anchored at the end, so one pass removes the last suffix only, and the label
  \<^verbatim>\<open>PER-1-2\<close> becomes \<^verbatim>\<open>PER-1\<close>, which the second pass turns into \<^verbatim>\<open>PER\<close>.
\<close>

theorem remove_ner_noise_not_idempotent:
  "remove_ner_noise (remove_ner_noise [(0, 3, str ''PER-1-2'')])
   \<noteq> remove_ner_noise [(0, 3, str ''PER-1-2'')]"
  by code_simp

text \<open>
  C5, amended: stripping twice equals stripping once exactly when no label, once
  stripped, still ends in a hyphen followed by digits; this is so in particular when
  every label holds at most one hyphen.
\<close>

theorem remove_ner_noise_idempotent_iff:
  "(remove_ner_noise (remove_ner_noise x) = remove_ner_noise x
     \<longleftrightarrow> (\<forall>e\<in>set x. \<not> noisy (sub_noise (snd (snd e)))))
   \<and> ((\<forall>e\<in>set x. count_list (snd (snd e)) hyphen \<le> 1)
     \<longrightarrow> remove_ner_noise (remove_ner_noise x) = remove_ner_noise x)"
  using remove_ner_noise_twice [of x] one_hyphen_clean by blast

theorem remove_ner_noise_idempotent_iff_witness:
  "count_list (str ''PER-1337'') hyphen \<le> 1
   \<and> count_list (str ''LOC'') hyphen \<le> 1
   \<and> remove_ner_noise (remove_ner_noise [(0, 3, str ''PER-1337''), (4, 9, str ''LOC'')])
       = remove_ner_noise [(0, 3, str ''PER-1337''), (4, 9, str ''LOC'')]
   \<and> remove_ner_noise [(0, 3, str ''PER-1337''), (4, 9, str ''LOC'')]
       = [(0, 3, str ''PER''), (4, 9, str ''LOC'')]"
proof -
  have h: "\<forall>e\<in>set ([(0, 3, str ''PER-1337''), (4, 9, str ''LOC'')] :: ent list).
      count_list (snd (snd e)) hyphen \<le> 1"
    by (simp add: str_def hyphen_def)
  have v: "remove_ner_noise [(0, 3, str ''PER-1337''), (4, 9, str ''LOC'')]
       = [(0, 3, str ''PER''), (4, 9, str ''LOC'')]"
    by code_simp
  from remove_ner_noise_idempotent_iff [of "[(0, 3, str ''PER-1337''), (4, 9, str ''LOC'')]"] h
  have "remove_ner_noise (remove_ner_noise [(0, 3, str ''PER-1337''), (4, 9, str ''LOC'')])
       = remove_ner_noise [(0, 3, str ''PER-1337''), (4, 9, str ''LOC'')]"
    by blast
  with h v show ?thesis by simp
qed

section \<open>Deduplication: properties\<close>

text \<open>A stable sort on a key refines whatever order the list had.\<close>

lemma insort_key_lex:
  fixes f :: "'a \<Rightarrow> 'k::linorder"
  assumes "sorted_wrt (\<lambda>x y. f x < f y \<or> (f x = f y \<and> R x y)) ys"
    and "\<forall>y\<in>set ys. R x y"
  shows "sorted_wrt (\<lambda>x y. f x < f y \<or> (f x = f y \<and> R x y)) (insort_key f x ys)"
  using assms by (induction ys) (auto simp: set_insort_key)

lemma sort_key_lex:
  fixes f :: "'a \<Rightarrow> 'k::linorder"
  shows "sorted_wrt R xs \<Longrightarrow>
    sorted_wrt (\<lambda>x y. f x < f y \<or> (f x = f y \<and> R x y)) (sort_key f xs)"
  by (induction xs) (auto simp: sort_key_simps intro!: insort_key_lex)

lemma ent_le_iff: "ent_le x y \<longleftrightarrow> x \<le> y"
  by (cases x, cases y) (auto simp: ent_le_def)

lemma three_sorts_sorted: "sorted_wrt ent_le (three_sorts xs)"
proof -
  have "sorted_wrt (\<lambda>x y. True) xs" by (induction xs) auto
  from sort_key_lex [OF sort_key_lex [OF sort_key_lex [OF this]]]
  show ?thesis
    unfolding three_sorts_def ent_le_def
    by (rule sorted_wrt_mono_rel [rotated]) auto
qed

lemma three_sorts_set: "set (three_sorts xs) = set xs"
  by (simp add: three_sorts_def)

lemma three_sorts_distinct: "distinct (three_sorts xs) = distinct xs"
  by (simp add: three_sorts_def)

lemma three_sorts_unique:
  assumes "distinct xs" shows "three_sorts xs = sorted_list_of_set (set xs)"
proof -
  have "sorted (three_sorts xs)"
    using three_sorts_sorted [of xs] by (simp add: ent_le_iff [abs_def] sorted_wrt_iff_nth_less)
  then show ?thesis
    using assms
    by (intro sorted_distinct_set_unique) (simp_all add: three_sorts_set three_sorts_distinct)
qed

lemma deduplicate_sorted_list: "deduplicate x = sorted_list_of_set (set x)"
  using three_sorts_unique [of "remdups x"] by (simp add: deduplicate_def)

lemma deduplicate_same_set: "set x = set y \<Longrightarrow> deduplicate x = deduplicate y"
  by (simp add: deduplicate_sorted_list)

text \<open>
  C8: \<open>deduplicate\<close> returns the distinct tuples of its input, each once, ordered by
  start, then end, then label, whatever order the set was listed in; and the two
  examples of the specification.
\<close>

theorem deduplicate_distinct_ordered:
  "set (deduplicate x) = set x
   \<and> distinct (deduplicate x)
   \<and> sorted_wrt ent_le (deduplicate x)
   \<and> (\<forall>ys. set_order x ys \<longrightarrow> three_sorts ys = deduplicate x)
   \<and> deduplicate [(5, 8, str ''B''), (0, 3, str ''A'')] = [(0, 3, str ''A''), (5, 8, str ''B'')]
   \<and> deduplicate [(0, 3, str ''A''), (0, 3, str ''A'')] = [(0, 3, str ''A'')]"
proof -
  have "set (deduplicate x) = set x"
    by (simp add: deduplicate_def three_sorts_set)
  moreover have "distinct (deduplicate x)"
    by (simp add: deduplicate_def three_sorts_distinct)
  moreover have "sorted_wrt ent_le (deduplicate x)"
    unfolding deduplicate_def by (rule three_sorts_sorted)
  moreover have "\<forall>ys. set_order x ys \<longrightarrow> three_sorts ys = deduplicate x"
    by (simp add: set_order_def deduplicate_sorted_list three_sorts_unique)
  moreover have
    "deduplicate [(5, 8, str ''B''), (0, 3, str ''A'')] = [(0, 3, str ''A''), (5, 8, str ''B'')]"
    by code_simp
  moreover have "deduplicate [(0, 3, str ''A''), (0, 3, str ''A'')] = [(0, 3, str ''A'')]"
    by code_simp
  ultimately show ?thesis by blast
qed

theorem deduplicate_distinct_ordered_witness:
  "set_order [(5, 8, str ''B''), (0, 3, str ''A''), (5, 8, str ''B'')]
             [(5, 8, str ''B''), (0, 3, str ''A'')]
   \<and> three_sorts [(5, 8, str ''B''), (0, 3, str ''A'')]
       = deduplicate [(5, 8, str ''B''), (0, 3, str ''A''), (5, 8, str ''B'')]"
proof -
  have h: "set_order [(5, 8, str ''B''), (0, 3, str ''A''), (5, 8, str ''B'')]
             [(5, 8, str ''B''), (0, 3, str ''A'')]"
    by (auto simp: set_order_def str_def)
  with deduplicate_distinct_ordered [of "[(5, 8, str ''B''), (0, 3, str ''A''), (5, 8, str ''B'')]"]
  show ?thesis by blast
qed

text \<open>
  C9: deduplicating twice is deduplicating once, and a permutation of the input gives
  the same result.
\<close>

theorem deduplicate_idempotent_permutation:
  "deduplicate (deduplicate x) = deduplicate x
   \<and> (mset p = mset x \<longrightarrow> deduplicate p = deduplicate x)"
proof -
  have "set (deduplicate x) = set x"
    by (simp add: deduplicate_def three_sorts_set)
  then have "deduplicate (deduplicate x) = deduplicate x"
    by (rule deduplicate_same_set)
  moreover have "deduplicate p = deduplicate x" if "mset p = mset x"
    using mset_eq_setD [OF that] by (rule deduplicate_same_set)
  ultimately show ?thesis by blast
qed

theorem deduplicate_idempotent_permutation_witness:
  "mset ([(0, 3, str ''A''), (5, 8, str ''B''), (0, 3, str ''A'')] :: ent list)
     = mset [(5, 8, str ''B''), (0, 3, str ''A''), (0, 3, str ''A'')]
   \<and> deduplicate [(0, 3, str ''A''), (5, 8, str ''B''), (0, 3, str ''A'')]
     = deduplicate [(5, 8, str ''B''), (0, 3, str ''A''), (0, 3, str ''A'')]"
proof -
  have h: "mset ([(0, 3, str ''A''), (5, 8, str ''B''), (0, 3, str ''A'')] :: ent list)
     = mset [(5, 8, str ''B''), (0, 3, str ''A''), (0, 3, str ''A'')]"
    by (simp add: str_def)
  with deduplicate_idempotent_permutation
         [of "[(5, 8, str ''B''), (0, 3, str ''A''), (0, 3, str ''A'')]"
             "[(0, 3, str ''A''), (5, 8, str ''B''), (0, 3, str ''A'')]"]
  show ?thesis by blast
qed

end
